theory Spec2Isabelle
  imports Main "HOL-Library.Word" "HOL-Library.AList"
begin

unbundle bit_operations_syntax

section \<open>The command validator\<close>

text \<open>
  \<^verbatim>\<open>isChained\<close> of \<^verbatim>\<open>main.go\<close> walks over the runes of the command string
  (\<^verbatim>\<open>for _, r := range command\<close>). A rune is Go's \<^verbatim>\<open>int32\<close>; the command is
  modelled as the list of runes that the \<^verbatim>\<open>range\<close> clause yields, in order.
\<close>

type_synonym rune = "32 word"

definition backslash :: rune where "backslash = 0x5C"
definition squote :: rune where "squote = 0x27"
definition dquote :: rune where "dquote = 0x22"
definition semicolon :: rune where "semicolon = 0x3B"
definition pipe :: rune where "pipe = 0x7C"
definition ampersand :: rune where "ampersand = 0x26"

text \<open>The two \<^verbatim>\<open>case\<close> lists of the \<^verbatim>\<open>switch r\<close> statement.\<close>

definition is_quote :: "rune \<Rightarrow> bool" where
  "is_quote r = (r = squote \<or> r = dquote)"

definition is_operator :: "rune \<Rightarrow> bool" where
  "is_operator r = (r = semicolon \<or> r = pipe \<or> r = ampersand)"

text \<open>
  The loop of \<^verbatim>\<open>isChained\<close>, started in the state \<open>inQuote\<close>, \<open>escaped\<close>, on
  the runes that are left. \<open>inQuote = 0\<close> is the source's "no quote is open". The
  branches are in the order of the source: the \<^verbatim>\<open>escaped\<close> test, the backslash test,
  then the quote state; \<^verbatim>\<open>return true\<close> ends the loop at once, and the end of the
  string is \<^verbatim>\<open>return false\<close>.
\<close>

fun scan :: "rune \<Rightarrow> bool \<Rightarrow> rune list \<Rightarrow> bool" where
  "scan inQuote escaped [] = False"
| "scan inQuote escaped (r # rs) =
     (if escaped then scan inQuote False rs
      else if r = backslash then scan inQuote True rs
      else if inQuote \<noteq> 0 then
        (if r = inQuote then scan 0 False rs else scan inQuote False rs)
      else if is_quote r then scan r False rs
      else if is_operator r then True
      else scan inQuote False rs)"

definition isChained :: "rune list \<Rightarrow> bool" where
  "isChained command = scan 0 False command"

text \<open>The runes of a string literal in ASCII, to write examples with.\<close>

definition runes :: "string \<Rightarrow> rune list" where
  "runes s = map of_char s"

text \<open>
  The assignments of one iteration that does not return, as a function on the pair
  \<open>(inQuote, escaped)\<close>, and the state the loop variables hold once a prefix has been
  read without the early return being taken.
\<close>

fun step :: "rune \<times> bool \<Rightarrow> rune \<Rightarrow> rune \<times> bool" where
  "step (inQuote, escaped) r =
     (if escaped then (inQuote, False)
      else if r = backslash then (inQuote, True)
      else if inQuote \<noteq> 0 then (if r = inQuote then (0, False) else (inQuote, False))
      else if is_quote r then (r, False)
      else (inQuote, False))"

definition state_after :: "rune list \<Rightarrow> rune \<times> bool" where
  "state_after rs = foldl step (0, False) rs"

subsection \<open>Positions of a command string\<close>




subsection \<open>The scan as the specification words it\<close>

text \<open>
  The specification's section 4.1 describes the scan differently: a backslash escapes
  the following character only outside a quote, and inside a quote every character but
  the matching quote character is inert, the backslash included. \<open>spec_step\<close> is that
  description, kept apart from \<open>step\<close> to compare the two.
\<close>

fun spec_step :: "rune \<times> bool \<Rightarrow> rune \<Rightarrow> rune \<times> bool" where
  "spec_step (inQuote, escaped) r =
     (if inQuote \<noteq> 0 then (if r = inQuote then (0, False) else (inQuote, False))
      else if escaped then (0, False)
      else if r = backslash then (0, True)
      else if is_quote r then (r, False)
      else (0, False))"

definition spec_state_after :: "rune list \<Rightarrow> rune \<times> bool" where
  "spec_state_after rs = foldl spec_step (0, False) rs"

definition spec_unquoted_operator_at :: "rune list \<Rightarrow> nat \<Rightarrow> bool" where
  "spec_unquoted_operator_at cs i =
     (i < length cs \<and> is_operator (cs ! i) \<and> spec_state_after (take i cs) = (0, False))"

section \<open>The exit classifier\<close>

text \<open>
  \<^verbatim>\<open>syscall.WaitStatus\<close> is a \<^verbatim>\<open>uint32\<close>. Its methods are those of Go's
  \<^verbatim>\<open>syscall\<close> package on Linux, with the constants \<^verbatim>\<open>mask = 0x7F\<close>,
  \<^verbatim>\<open>exited = 0x00\<close>, \<^verbatim>\<open>stopped = 0x7F\<close> and \<^verbatim>\<open>shift = 8\<close>.
  A signal (\<^verbatim>\<open>syscall.Signal\<close>) is an \<^verbatim>\<open>int\<close>.
\<close>

type_synonym WaitStatus = "32 word"
type_synonym signal = int

definition SIGINT :: signal where "SIGINT = 2"
definition SIGTERM :: signal where "SIGTERM = 15"

definition Exited :: "WaitStatus \<Rightarrow> bool" where
  "Exited w = (w AND 0x7F = 0x00)"

definition Signaled :: "WaitStatus \<Rightarrow> bool" where
  "Signaled w = (w AND 0x7F \<noteq> 0x7F \<and> w AND 0x7F \<noteq> 0x00)"

definition ExitStatus :: "WaitStatus \<Rightarrow> int" where
  "ExitStatus w = (if \<not> Exited w then - 1 else uint (drop_bit 8 w) AND 0xFF)"

definition Signal :: "WaitStatus \<Rightarrow> signal" where
  "Signal w = (if \<not> Signaled w then - 1 else uint (w AND 0x7F))"

text \<open>
  An \<^verbatim>\<open>error\<close> value as \<^verbatim>\<open>isNormalExit\<close> tells them apart: an
  \<^verbatim>\<open>*exec.ExitError\<close>, whose \<^verbatim>\<open>Sys()\<close> is a \<^verbatim>\<open>syscall.WaitStatus\<close> or a value
  of another dynamic type; any other error that \<^verbatim>\<open>cmd.Wait\<close> returns; and the
  \<^verbatim>\<open>fmt.Errorf("abnormal exit")\<close> that the event loop stores. \<^verbatim>\<open>nil\<close> is \<open>None\<close>.
\<close>

datatype sys_value = SysWaitStatus WaitStatus | SysOther

datatype go_error = ExitError sys_value | OtherError | AbnormalExit

fun isNormalExit :: "go_error option \<Rightarrow> bool" where
  "isNormalExit None = True"
| "isNormalExit (Some (ExitError (SysWaitStatus ws))) =
     (if Exited ws then ExitStatus ws = 0
      else if Signaled ws then Signal ws = SIGINT \<or> Signal ws = SIGTERM
      else False)"
| "isNormalExit (Some (ExitError SysOther)) = False"
| "isNormalExit (Some OtherError) = False"
| "isNormalExit (Some AbnormalExit) = False"

text \<open>
  What the result of \<^verbatim>\<open>cmd.Wait\<close> says about the child, read off the Linux wait
  status by arithmetic: the low seven bits are zero for an exit, whose code is the next
  byte; they are the signal number for a death by signal; \<open>127\<close> marks a stopped or
  continued child. \<^verbatim>\<open>cmd.Wait\<close> returns \<^verbatim>\<open>nil\<close> for a child that exited with
  code 0.
\<close>

datatype exit_cause = ExitedWithCode nat | KilledBySignal nat | Unrecognized

fun cause_of :: "go_error option \<Rightarrow> exit_cause" where
  "cause_of None = ExitedWithCode 0"
| "cause_of (Some (ExitError (SysWaitStatus ws))) =
     (if unat ws mod 128 = 0 then ExitedWithCode (unat ws div 256 mod 256)
      else if unat ws mod 128 = 127 then Unrecognized
      else KilledBySignal (unat ws mod 128))"
| "cause_of (Some (ExitError SysOther)) = Unrecognized"
| "cause_of (Some OtherError) = Unrecognized"
| "cause_of (Some AbnormalExit) = Unrecognized"

section \<open>The supervisor\<close>

subsection \<open>State\<close>

text \<open>
  A \<^verbatim>\<open>subprocess\<close> struct; \<open>pid\<close> stands for \<^verbatim>\<open>cmd.Process.Pid\<close>, the only part
  of \<^verbatim>\<open>cmd\<close> that is read after the start.
\<close>

type_synonym command = "rune list"

record subprocess =
  command :: command
  pid :: int
  up :: bool
  err :: "go_error option"

text \<open>
  The \<^verbatim>\<open>multirun\<close> struct. Its map holds pointers, and the waiter of a child sends
  the same pointer on \<^verbatim>\<open>exitChan\<close>; so the structs live in a store \<open>procs\<close>,
  addressed by their index, and \<open>subprocesses\<close> maps a process id to an address. The
  map is an association list with one entry for each key. Go leaves the order of a
  \<^verbatim>\<open>range\<close> over a map open; the list's order is one of the orders it may take.
  The two channels are modelled by the list of events that the \<^verbatim>\<open>select\<close> receives.
\<close>

record multirun =
  verbose :: bool
  procs :: "subprocess list"
  subprocesses :: "(int \<times> nat) list"

subsection \<open>Effects and the environment\<close>

type_synonym errno = nat

definition ESRCH :: errno where "ESRCH = 3"

datatype message =
    ErrorStarting command
  | ChainedNotSupported
  | ErrorKilling int errno
  | EndedAbnormally
  | Launched command int
  | NoProcessesStarted
  | ExitedAbnormally command int
  | ExitedNormally command int
  | OneProcessExited
  | ReceivedSignal signal
  | AllExitedWithoutErrors

text \<open>
  What the supervisor does to the outside, in the order it does it: \<open>Start c\<close> is
  \<^verbatim>\<open>cmd.Start()\<close> for \<^verbatim>\<open>sh -c "exec "+c\<close> in a process group of its own,
  \<open>Print\<close> a line on standard output, \<open>Eprint\<close> a line on standard error,
  \<open>Notify\<close> the call of \<^verbatim>\<open>signal.Notify\<close> that opens \<^verbatim>\<open>handleEvents\<close>,
  \<open>Broadcast s\<close> the entry into \<^verbatim>\<open>app.shutdown(s)\<close>, and \<open>Kill t s\<close> the call
  \<^verbatim>\<open>syscall.Kill(t, s)\<close>.
\<close>

datatype effect =
    Usage
  | Start command
  | Print message
  | Eprint message
  | Notify
  | Broadcast signal
  | Kill int signal

text \<open>
  The operating system answers two calls. \<open>os_start k\<close> is the outcome of
  \<^verbatim>\<open>cmd.Start()\<close> for the command at index \<open>k\<close> of the argument list: the process
  id of the child, or \<open>None\<close> when the start fails. \<open>os_kill t s\<close> is the error
  of \<^verbatim>\<open>syscall.Kill(t, s)\<close>, \<open>None\<close> for \<^verbatim>\<open>nil\<close>.
\<close>

type_synonym os_start = "nat \<Rightarrow> int option"
type_synonym os_kill = "int \<Rightarrow> signal \<Rightarrow> errno option"

text \<open>
  An event is one receive of the \<^verbatim>\<open>select\<close>: from \<^verbatim>\<open>exitChan\<close> the address of
  a subprocess, with the value its waiter stored in \<^verbatim>\<open>p.err\<close> before sending (the
  result of \<^verbatim>\<open>p.cmd.Wait()\<close>), or a signal from \<^verbatim>\<open>sigChan\<close>.
\<close>

datatype event = ChildExit nat "go_error option" | SignalReceived signal

definition logf :: "bool \<Rightarrow> message \<Rightarrow> effect list" where
  "logf v m = (if v then [Print m] else [])"

subsection \<open>Launching\<close>

text \<open>
  \<^verbatim>\<open>startSubprocesses\<close>, from the command at index \<open>k\<close> on. The result is the
  state, the effects, and whether the chained-command error was returned. The struct of
  a command enters the store when its start succeeds; the source allocates it before
  the start and drops it on failure.
\<close>

fun startSubprocesses ::
  "os_start \<Rightarrow> nat \<Rightarrow> multirun \<Rightarrow> command list \<Rightarrow> multirun \<times> effect list \<times> bool" where
  "startSubprocesses os k app [] = (app, [], False)"
| "startSubprocesses os k app (c # cs) =
     (if isChained c then (app, [], True)
      else case os k of
        None \<Rightarrow>
          (case startSubprocesses os (Suc k) app cs of
             (app', fx, e) \<Rightarrow> (app', Start c # Eprint (ErrorStarting c) # fx, e))
      | Some p \<Rightarrow>
          (case startSubprocesses os (Suc k)
                  (app\<lparr>procs := procs app @ [\<lparr>command = c, pid = p, up = True, err = None\<rparr>],
                       subprocesses := AList.update p (length (procs app)) (subprocesses app)\<rparr>)
                  cs of
             (app', fx, e) \<Rightarrow> (app', Start c # logf (verbose app) (Launched c p) @ fx, e)))"

subsection \<open>Shutdown\<close>

text \<open>
  \<^verbatim>\<open>shutdown\<close>: the loop over the map, and the method itself. The loop reads
  \<^verbatim>\<open>proc.up\<close> through the pointer in the map.
\<close>

fun kill_each :: "os_kill \<Rightarrow> subprocess list \<Rightarrow> signal \<Rightarrow> (int \<times> nat) list \<Rightarrow> effect list" where
  "kill_each os ps s [] = []"
| "kill_each os ps s ((p, a) # m) =
     (if up (ps ! a) then
        Kill (- p) s #
        (case os (- p) s of
           None \<Rightarrow> []
         | Some e \<Rightarrow> if e \<noteq> ESRCH then [Eprint (ErrorKilling p e)] else [])
      else []) @ kill_each os ps s m"

definition shutdown :: "os_kill \<Rightarrow> multirun \<Rightarrow> signal \<Rightarrow> effect list" where
  "shutdown os app s = Broadcast s # kill_each os (procs app) s (subprocesses app)"

subsection \<open>The event loop\<close>

text \<open>
  The \<^verbatim>\<open>for runningProcesses > 0\<close> loop of \<^verbatim>\<open>handleEvents\<close>, on the events still
  to come. \<open>record_exit\<close> is what the first \<^verbatim>\<open>case\<close> stores in the struct it
  received: \<^verbatim>\<open>up = false\<close>, and in \<^verbatim>\<open>err\<close> the classification of the result of
  \<^verbatim>\<open>Wait\<close>. When the events run out while \<open>runningProcesses\<close> is positive, the
  \<^verbatim>\<open>select\<close> blocks; the loop's result then still has a positive count.
\<close>

definition record_exit :: "multirun \<Rightarrow> nat \<Rightarrow> go_error option \<Rightarrow> multirun" where
  "record_exit app a w =
     app\<lparr>procs := (procs app)
            [a := (procs app ! a)\<lparr>up := False,
                                  err := (if \<not> isNormalExit w then Some AbnormalExit else None)\<rparr>]\<rparr>"

fun event_loop ::
  "os_kill \<Rightarrow> multirun \<Rightarrow> int \<Rightarrow> bool \<Rightarrow> event list \<Rightarrow> multirun \<times> int \<times> effect list" where
  "event_loop os app runningProcesses closing [] = (app, runningProcesses, [])"
| "event_loop os app runningProcesses closing (ChildExit a w # evs) =
     (if runningProcesses > 0 then
        (let proc = procs app ! a;
             app1 = record_exit app a w;
             fx1 = (if \<not> isNormalExit w
                    then logf (verbose app) (ExitedAbnormally (command proc) (pid proc))
                    else logf (verbose app) (ExitedNormally (command proc) (pid proc)));
             fx2 = (if \<not> closing
                    then logf (verbose app) OneProcessExited @ shutdown os app1 SIGTERM
                    else [])
         in case event_loop os app1 (runningProcesses - 1) True evs of
              (app', n, fx) \<Rightarrow> (app', n, fx1 @ fx2 @ fx))
      else (app, runningProcesses, []))"
| "event_loop os app runningProcesses closing (SignalReceived s # evs) =
     (if runningProcesses > 0 then
        (if \<not> closing then
           (case event_loop os app runningProcesses True evs of
              (app', n, fx) \<Rightarrow>
                (app', n, logf (verbose app) (ReceivedSignal s) @ shutdown os app s @ fx))
         else event_loop os app runningProcesses closing evs)
      else (app, runningProcesses, []))"

text \<open>
  \<^verbatim>\<open>handleEvents\<close>: the state and the effects, and \<open>Some hadErrors\<close> when the
  method returns, \<open>None\<close> when it waits for an event that does not come.
\<close>

definition handleEvents ::
  "os_kill \<Rightarrow> multirun \<Rightarrow> event list \<Rightarrow> multirun \<times> effect list \<times> bool option" where
  "handleEvents os app evs =
     (case event_loop os app (int (length (subprocesses app))) False evs of
        (app', n, fx) \<Rightarrow>
          (app', Notify # fx,
           if n > 0 then None
           else Some (list_ex (\<lambda>(p, a). err (procs app' ! a) \<noteq> None) (subprocesses app'))))"

subsection \<open>The program\<close>

text \<open>
  \<^verbatim>\<open>main\<close> after the flags are parsed: \<open>v\<close> is the \<^verbatim>\<open>-v\<close> flag and
  \<open>commands\<close> is \<^verbatim>\<open>flag.Args()\<close>. The result is the effects and the status given to
  \<^verbatim>\<open>os.Exit\<close>, \<open>None\<close> when \<^verbatim>\<open>handleEvents\<close> does not return. The registration
  as a subreaper precedes all this and touches nothing of it.
\<close>

definition main ::
  "bool \<Rightarrow> command list \<Rightarrow> os_start \<Rightarrow> os_kill \<Rightarrow> event list \<Rightarrow> effect list \<times> int option" where
  "main v commands start kill evs =
     (let app = \<lparr>verbose = v, procs = [], subprocesses = []\<rparr> in
      if length commands = 0 then ([Usage], Some 2)
      else case startSubprocesses start 0 app commands of
        (app1, fx1, True) \<Rightarrow> (fx1 @ [Eprint ChainedNotSupported], Some 2)
      | (app1, fx1, False) \<Rightarrow>
          if length (subprocesses app1) = 0
          then (fx1 @ logf (verbose app1) NoProcessesStarted, Some 1)
          else (case handleEvents kill app1 evs of
            (app2, fx2, None) \<Rightarrow> (fx1 @ fx2, None)
          | (app2, fx2, Some hadErrors) \<Rightarrow>
              if hadErrors then (fx1 @ fx2 @ [Eprint EndedAbnormally], Some 1)
              else (fx1 @ fx2 @ logf (verbose app2) AllExitedWithoutErrors, Some 0)))"

text \<open>
  The events that the loop takes off the channels before the count reaches zero, and
  the projections of an effect list used below.
\<close>

fun consumed :: "int \<Rightarrow> event list \<Rightarrow> event list" where
  "consumed n [] = []"
| "consumed n (ChildExit a w # evs) =
     (if n > 0 then ChildExit a w # consumed (n - 1) evs else [])"
| "consumed n (SignalReceived s # evs) =
     (if n > 0 then SignalReceived s # consumed n evs else [])"

fun is_broadcast :: "effect \<Rightarrow> bool" where
  "is_broadcast (Broadcast s) = True"
| "is_broadcast _ = False"

fun is_kill :: "effect \<Rightarrow> bool" where
  "is_kill (Kill t s) = True"
| "is_kill _ = False"

fun is_start :: "effect \<Rightarrow> bool" where
  "is_start (Start c) = True"
| "is_start _ = False"

fun is_eprint :: "effect \<Rightarrow> bool" where
  "is_eprint (Eprint m) = True"
| "is_eprint _ = False"

fun is_exit :: "event \<Rightarrow> bool" where
  "is_exit (ChildExit a w) = True"
| "is_exit (SignalReceived s) = False"

fun exit_address :: "event \<Rightarrow> nat option" where
  "exit_address (ChildExit a w) = Some a"
| "exit_address (SignalReceived s) = None"

definition exit_addresses :: "event list \<Rightarrow> nat list" where
  "exit_addresses evs = List.map_filter exit_address evs"

text \<open>The entries of the map whose subprocess is marked \<^verbatim>\<open>up\<close>.\<close>

definition alive :: "multirun \<Rightarrow> (int \<times> nat) list" where
  "alive app = filter (\<lambda>(p, a). up (procs app ! a)) (subprocesses app)"

text \<open>The signal that an event makes the loop broadcast when it is the first.\<close>

fun trigger_signal :: "event \<Rightarrow> signal" where
  "trigger_signal (ChildExit a w) = SIGTERM"
| "trigger_signal (SignalReceived s) = s"

text \<open>
  The commands of a list, numbered from \<open>k\<close>, whose start fails, and the process ids
  of those whose start succeeds.
\<close>

definition numbered :: "nat \<Rightarrow> command list \<Rightarrow> (nat \<times> command) list" where
  "numbered k cs = zip [k..<k + length cs] cs"

definition failed :: "os_start \<Rightarrow> nat \<Rightarrow> command list \<Rightarrow> command list" where
  "failed os k cs = map snd (filter (\<lambda>(i, c). os i = None) (numbered k cs))"

definition launched :: "os_start \<Rightarrow> nat \<Rightarrow> command list \<Rightarrow> (command \<times> int) list" where
  "launched os k cs =
     concat (map (\<lambda>(i, c). case os i of None \<Rightarrow> [] | Some p \<Rightarrow> [(c, p)]) (numbered k cs))"

text \<open>The struct that \<^verbatim>\<open>startSubprocesses\<close> stores for a command it has started.\<close>

definition fresh_proc :: "command \<times> int \<Rightarrow> subprocess" where
  "fresh_proc = (\<lambda>(c, p). \<lparr>command = c, pid = p, up = True, err = None\<rparr>)"

subsection \<open>Examples\<close>

text \<open>
  A supervisor with two children up, two results of \<^verbatim>\<open>Wait\<close> (exit status 1 is the
  wait status \<open>0x100\<close>, death by \<^verbatim>\<open>SIGTERM\<close> the wait status \<open>0x0F\<close>), and
  four answers of the operating system; \<open>kill_fails\<close> answers \<^verbatim>\<open>ESRCH\<close> for the
  group of process 100 and \<^verbatim>\<open>EPERM\<close>, which is 1, for every other.
\<close>

definition two_children :: multirun where
  "two_children =
     \<lparr>verbose = False,
      procs = [\<lparr>command = runes ''a'', pid = 100, up = True, err = None\<rparr>,
               \<lparr>command = runes ''b'', pid = 101, up = True, err = None\<rparr>],
      subprocesses = [(100, 0), (101, 1)]\<rparr>"

definition exit_status_1 :: "go_error option" where
  "exit_status_1 = Some (ExitError (SysWaitStatus 0x100))"

definition killed_by_SIGTERM :: "go_error option" where
  "killed_by_SIGTERM = Some (ExitError (SysWaitStatus 0x0F))"

definition pids_from_100 :: os_start where
  "pids_from_100 k = Some (100 + int k)"

definition second_only :: os_start where
  "second_only k = (if k = 1 then Some 7 else None)"

definition kill_ok :: os_kill where
  "kill_ok t s = None"

definition kill_fails :: os_kill where
  "kill_fails t s = (if t = - 100 then Some ESRCH else Some 1)"

section \<open>Properties of the validator\<close>

lemmas rune_defs = backslash_def squote_def dquote_def semicolon_def pipe_def ampersand_def
  is_quote_def is_operator_def







text \<open>
  Claim C1 says that \<^verbatim>\<open>isChained\<close> returns true whenever one of \<open>;\<close>, \<open>|\<close>,
  \<open>&\<close> stands outside every quoted span and is not escaped. The code misses a case.
  In the four characters \<open>'\';\<close> the second quote character ends the single-quoted
  span (a backslash inside single quotes is an ordinary character, for the shell as for
  the specification), and the semicolon after it is neither quoted nor escaped. The
  code takes the backslash to escape the second quote character, keeps the quote open
  to the end of the string and returns false; so it does on the command
  \<open>echo '\'; rm x\<close>, which the shell runs as two statements.
\<close>

theorem isChained_misses_operator_after_single_quote:
  "\<not> isChained [squote, backslash, squote, semicolon]
   \<and> spec_unquoted_operator_at [squote, backslash, squote, semicolon] 3
   \<and> \<not> isChained (runes ''echo '' @ [squote, backslash, squote, semicolon] @ runes '' rm x'')
   \<and> spec_unquoted_operator_at
        (runes ''echo '' @ [squote, backslash, squote, semicolon] @ runes '' rm x'') 8"
  by (simp add: isChained_def spec_unquoted_operator_at_def spec_state_after_def runes_def
      rune_defs)

subsection \<open>Backslashes and quotes\<close>

lemma scan_escape_pair: "scan q False (backslash # c # rs) = scan q False rs"
  by simp

lemma scan_inert:
  "is_quote q \<Longrightarrow> q \<notin> set xs \<Longrightarrow> backslash \<notin> set xs \<Longrightarrow>
   scan q False (xs @ rs) = scan q False rs"
  by (induction xs) (auto simp: rune_defs)

lemma scan_close: "is_quote q \<Longrightarrow> scan q False (q # rs) = scan 0 False rs"
  by (auto simp: rune_defs)

lemma in_quote_stays:
  "is_quote q \<Longrightarrow> q \<notin> set xs \<Longrightarrow> fst (foldl step (q, e) xs) = q \<and> \<not> scan q e xs"
proof (induction xs arbitrary: e)
  case Nil
  then show ?case by simp
next
  case (Cons x xs)
  from Cons.prems have q0: "q \<noteq> 0" and xq: "x \<noteq> q" and nq: "q \<notin> set xs"
    by (auto simp: rune_defs)
  have "step (q, e) x = (q, \<not> e \<and> x = backslash)"
    using q0 xq by simp
  moreover have "scan q e (x # xs) = scan q (\<not> e \<and> x = backslash) xs"
    using q0 xq by simp
  ultimately show ?case
    using Cons.IH [OF Cons.prems(1) nq] by simp
qed

text \<open>
  Claim C6, as the code has it by design. An unescaped backslash escapes the character
  after it outside a quote and inside a double quote: the pair is consumed and the scan
  goes on in the same state. Inside a single or a double quote, a stretch of characters
  without a backslash and without the matching quote character is inert, operators
  included, and a matching quote character that no backslash precedes closes the quote.
  As long as no double quote character occurs, a double quote stays open and nothing is
  reported, whatever else occurs. What a backslash does inside a single quote is left
  out of this statement.
\<close>

theorem scan_quote_and_escape:
  "scan 0 False (backslash # c # rs) = scan 0 False rs
   \<and> scan dquote False (backslash # c # rs) = scan dquote False rs
   \<and> (is_quote q \<longrightarrow> q \<notin> set xs \<longrightarrow> backslash \<notin> set xs \<longrightarrow>
        scan q False (xs @ rs) = scan q False rs)
   \<and> (is_quote q \<longrightarrow> scan q False (q # rs) = scan 0 False rs)
   \<and> (dquote \<notin> set ys \<longrightarrow>
        fst (foldl step (dquote, e) ys) = dquote \<and> \<not> scan dquote e ys)"
proof -
  have "is_quote dquote" by (simp add: is_quote_def)
  then show ?thesis
    using scan_escape_pair [of 0 c rs] scan_escape_pair [of dquote c rs]
      scan_inert [of q xs rs] scan_close [of q rs] in_quote_stays [of dquote ys e]
    by blast
qed

theorem scan_quote_and_escape_witness:
  "scan dquote False [backslash, dquote, ampersand] = scan dquote False [ampersand]
   \<and> scan squote False ([semicolon, pipe, dquote] @ [squote, ampersand])
       = scan squote False [squote, ampersand]
   \<and> scan squote False [squote, ampersand] = scan 0 False [ampersand]
   \<and> fst (foldl step (dquote, False) [semicolon, backslash, ampersand]) = dquote
   \<and> \<not> scan dquote False [semicolon, backslash, ampersand]"
proof -
  have 1: "is_quote squote" by (simp add: is_quote_def)
  have 2: "squote \<notin> set [semicolon, pipe, dquote]" "backslash \<notin> set [semicolon, pipe, dquote]"
    "dquote \<notin> set [semicolon, backslash, ampersand]"
    by (simp_all add: rune_defs)
  show ?thesis
    using 1 2
      scan_quote_and_escape [where q = squote and c = dquote and rs = "[ampersand]"]
      scan_quote_and_escape [where q = squote and xs = "[semicolon, pipe, dquote]"
        and rs = "[squote, ampersand]" and ys = "[semicolon, backslash, ampersand]" and e = False]
    by blast
qed

text \<open>
  The rule of the specification, that a backslash inside a quote is inert and the next
  matching quote character closes the quote, is not the code's inside a double quote:
  after the three characters \<open>"\"\<close> the code is still inside the double quote, and
  the specification's scan has left it. The repository's test of an escaped quote
  (\<open>echo "a\"b&c\"d"\<close> is to be accepted) needs the code's rule.
\<close>

theorem spec_step_counterexample:
  "state_after [dquote, backslash, dquote] = (dquote, False)
   \<and> spec_state_after [dquote, backslash, dquote] = (0, False)"
  by (simp add: state_after_def spec_state_after_def rune_defs)

subsection \<open>A quote that is never closed\<close>




section \<open>Properties of the exit classifier\<close>

lemma low7: "unat (w AND 0x7F :: 32 word) = unat w mod 128"
proof -
  have m: "(127 :: nat) = mask 7" by (simp add: mask_eq_exp_minus_1)
  have "unat (w AND 0x7F) = unat w AND 127" by (simp add: unsigned_and_eq)
  also have "\<dots> = take_bit 7 (unat w)" unfolding m by (simp add: take_bit_eq_mask)
  finally show ?thesis by (simp add: take_bit_eq_mod)
qed

lemma low7_uint: "uint (w AND 0x7F :: 32 word) = int (unat w mod 128)"
  using low7 [of w] by (metis uint_nat)

lemma low7_eq: "(w AND 0x7F :: 32 word) = of_nat n \<longleftrightarrow> unat w mod 128 = n" if "n < 128"
proof -
  have "(w AND 0x7F) = of_nat n \<longleftrightarrow> unat (w AND 0x7F) = unat (of_nat n :: 32 word)"
    by (simp add: word_unat_eq_iff)
  also have "unat (of_nat n :: 32 word) = n" using that by (simp add: unat_of_nat)
  finally show ?thesis by (simp add: low7)
qed

lemma exit_code: "uint (drop_bit 8 (w :: 32 word)) AND 0xFF = int (unat w div 256 mod 256)"
proof -
  have m: "(255 :: int) = mask 8" by (simp add: mask_eq_exp_minus_1)
  have a: "x AND 255 = x mod 256" for x :: int
    unfolding m by (simp add: take_bit_eq_mod flip: take_bit_eq_mask)
  have "unat (drop_bit 8 w) = drop_bit 8 (unat w)" by (rule unat_drop_bit_eq)
  then have b: "unat (drop_bit 8 w) = unat w div 256" by (simp add: drop_bit_eq_div)
  have "uint (drop_bit 8 w) = int (unat (drop_bit 8 w))" by (rule uint_nat)
  then have c: "uint (drop_bit 8 w) = int (unat w div 256)" by (simp only: b)
  show ?thesis by (simp only: a c zmod_int) simp
qed

lemma Exited_iff: "Exited w \<longleftrightarrow> unat w mod 128 = 0"
  using low7_eq [of 0 w] by (simp add: Exited_def)

lemma Signaled_iff: "Signaled w \<longleftrightarrow> unat w mod 128 \<noteq> 127 \<and> unat w mod 128 \<noteq> 0"
  using low7_eq [of 0 w] low7_eq [of 127 w] by (simp add: Signaled_def)

text \<open>
  Claim C4. \<^verbatim>\<open>isNormalExit\<close> returns true if and only if the child exited with
  status code 0 or was killed by \<^verbatim>\<open>SIGINT\<close> or \<^verbatim>\<open>SIGTERM\<close>. Every other exit
  code, every other signal and every result that is neither (a stopped status, an
  \<^verbatim>\<open>ExitError\<close> without a wait status, an error of \<^verbatim>\<open>Wait\<close> that is no
  \<^verbatim>\<open>ExitError\<close>) is abnormal.
\<close>

theorem isNormalExit_iff_cause:
  "isNormalExit e \<longleftrightarrow>
     cause_of e = ExitedWithCode 0
     \<or> cause_of e = KilledBySignal (nat SIGINT)
     \<or> cause_of e = KilledBySignal (nat SIGTERM)"
proof (cases e)
  case None
  then show ?thesis by simp
next
  case (Some g)
  show ?thesis
  proof (cases g)
    case (ExitError sv)
    show ?thesis
    proof (cases sv)
      case (SysWaitStatus ws)
      show ?thesis
        unfolding Some ExitError SysWaitStatus
        by (simp add: Exited_iff Signaled_iff ExitStatus_def Signal_def exit_code low7_uint
            SIGINT_def SIGTERM_def del: of_nat_mod of_nat_div)
    next
      case SysOther
      then show ?thesis by (simp add: Some ExitError)
    qed
  qed (simp_all add: Some)
qed

section \<open>Properties of the shutdown and of the event loop\<close>

lemma kill_each_kills:
  "filter is_kill (kill_each os ps s m)
     = map (\<lambda>(p, a). Kill (- p) s) (filter (\<lambda>(p, a). up (ps ! a)) m)"
  by (induction m) (auto split: option.splits)

lemma kill_each_not_broadcast: "filter is_broadcast (kill_each os ps s m) = []"
  by (induction m) (auto split: option.splits)

lemma kill_each_eprint:
  "Eprint msg \<in> set (kill_each os ps s m) \<longleftrightarrow>
     (\<exists>(p, a) \<in> set (filter (\<lambda>(p, a). up (ps ! a)) m).
        \<exists>e. os (- p) s = Some e \<and> e \<noteq> ESRCH \<and> msg = ErrorKilling p e)"
  by (induction m) (auto split: option.splits)

lemma shutdown_kills:
  "filter is_kill (shutdown os app s) = map (\<lambda>(p, a). Kill (- p) s) (alive app)"
  by (simp add: shutdown_def alive_def kill_each_kills)

lemma shutdown_broadcast: "filter is_broadcast (shutdown os app s) = [Broadcast s]"
  by (simp add: shutdown_def kill_each_not_broadcast)

lemma shutdown_eprint:
  "Eprint msg \<in> set (shutdown os app s) \<longleftrightarrow>
     (\<exists>(p, a) \<in> set (alive app).
        \<exists>e. os (- p) s = Some e \<and> e \<noteq> ESRCH \<and> msg = ErrorKilling p e)"
  by (simp add: shutdown_def alive_def kill_each_eprint)

lemma logf_filters [simp]:
  "filter is_kill (logf v m) = []" "filter is_broadcast (logf v m) = []"
  "filter is_start (logf v m) = []" "filter is_eprint (logf v m) = []"
  by (simp_all add: logf_def)

text \<open>Once \<open>closing\<close> is set, the loop enters no shutdown and calls no \<^verbatim>\<open>Kill\<close>.\<close>

lemma closing_quiet:
  "event_loop os app n True evs = (app', n', fx) \<Longrightarrow>
   filter is_broadcast fx = [] \<and> filter is_kill fx = []"
proof (induction evs arbitrary: app n app' n' fx)
  case Nil
  then show ?case by simp
next
  case (Cons ev evs)
  show ?case
  proof (cases ev)
    case (ChildExit a w)
    show ?thesis
    proof (cases "n > 0")
      case True
      obtain a1 n1 f1 where r: "event_loop os (record_exit app a w) (n - 1) True evs = (a1, n1, f1)"
        by (metis prod_cases3)
      from Cons.IH [OF r] Cons.prems True show ?thesis
        by (auto simp: ChildExit r Let_def)
    next
      case False
      with Cons.prems show ?thesis by (auto simp: ChildExit)
    qed
  next
    case (SignalReceived s)
    show ?thesis
    proof (cases "n > 0")
      case True
      with Cons.prems have "event_loop os app n True evs = (app', n', fx)"
        by (simp add: SignalReceived)
      from Cons.IH [OF this] show ?thesis .
    next
      case False
      with Cons.prems show ?thesis by (auto simp: SignalReceived)
    qed
  qed
qed

text \<open>The state and the count do not depend on the answers of \<^verbatim>\<open>Kill\<close>.\<close>

lemma event_loop_os:
  "event_loop os app n c evs = (app', n', fx) \<Longrightarrow>
   \<exists>fx'. event_loop os' app n c evs = (app', n', fx')"
proof (induction evs arbitrary: app n c app' n' fx)
  case Nil
  then show ?case by simp
next
  case (Cons ev evs)
  show ?case
  proof (cases ev)
    case (ChildExit a w)
    show ?thesis
    proof (cases "n > 0")
      case True
      obtain a1 n1 f1 where r: "event_loop os (record_exit app a w) (n - 1) True evs = (a1, n1, f1)"
        by (metis prod_cases3)
      from Cons.IH [OF r] obtain f2 where
        r': "event_loop os' (record_exit app a w) (n - 1) True evs = (a1, n1, f2)" by blast
      from Cons.prems True r r' show ?thesis
        by (auto simp: ChildExit Let_def)
    next
      case False
      with Cons.prems show ?thesis by (auto simp: ChildExit)
    qed
  next
    case (SignalReceived s)
    show ?thesis
    proof (cases "n > 0")
      case True
      obtain a1 n1 f1 where r: "event_loop os app n True evs = (a1, n1, f1)"
        by (metis prod_cases3)
      from Cons.IH [OF r] obtain f2 where
        r': "event_loop os' app n True evs = (a1, n1, f2)" by blast
      from Cons.prems True r r' show ?thesis
        by (cases c) (auto simp: SignalReceived)
    next
      case False
      with Cons.prems show ?thesis by (auto simp: SignalReceived)
    qed
  qed
qed

lemma record_exit_simps [simp]:
  "subprocesses (record_exit app a w) = subprocesses app"
  "verbose (record_exit app a w) = verbose app"
  "length (procs (record_exit app a w)) = length (procs app)"
  "b \<noteq> a \<Longrightarrow> procs (record_exit app a w) ! b = procs app ! b"
  by (simp_all add: record_exit_def)

lemma record_exit_at:
  "a < length (procs app) \<Longrightarrow>
   \<not> up (procs (record_exit app a w) ! a) \<and>
   err (procs (record_exit app a w) ! a) = (if isNormalExit w then None else Some AbnormalExit)"
  by (simp add: record_exit_def)

lemma record_exit_err:
  "err (procs (record_exit app a w) ! b) \<noteq> None \<Longrightarrow>
   err (procs app ! b) \<noteq> None \<or> (b = a \<and> \<not> isNormalExit w)"
  by (cases "b = a"; cases "a < length (procs app)")
    (auto simp: record_exit_def list_update_beyond split: if_splits)

lemma exit_addresses_simps [simp]:
  "exit_addresses [] = []"
  "exit_addresses (ChildExit a w # evs) = a # exit_addresses evs"
  "exit_addresses (SignalReceived s # evs) = exit_addresses evs"
  by (simp_all add: exit_addresses_def List.map_filter_simps)

lemma event_loop_frame:
  "event_loop os app n c evs = (app', n', fx) \<Longrightarrow>
   subprocesses app' = subprocesses app \<and> verbose app' = verbose app
   \<and> length (procs app') = length (procs app)"
proof (induction evs arbitrary: app n c app' n' fx)
  case Nil
  then show ?case by simp
next
  case (Cons ev evs)
  show ?case
  proof (cases ev)
    case (ChildExit a w)
    show ?thesis
    proof (cases "n > 0")
      case True
      obtain a1 n1 f1 where r: "event_loop os (record_exit app a w) (n - 1) True evs = (a1, n1, f1)"
        by (metis prod_cases3)
      from Cons.IH [OF r] Cons.prems True show ?thesis
        by (auto simp: ChildExit r Let_def)
    next
      case False
      with Cons.prems show ?thesis by (auto simp: ChildExit)
    qed
  next
    case (SignalReceived s)
    show ?thesis
    proof (cases "n > 0")
      case True
      obtain a1 n1 f1 where r: "event_loop os app n True evs = (a1, n1, f1)"
        by (metis prod_cases3)
      from Cons.IH [OF r] Cons.prems True show ?thesis
        by (cases c) (auto simp: SignalReceived r)
    next
      case False
      with Cons.prems show ?thesis by (auto simp: SignalReceived)
    qed
  qed
qed

lemma loop_untouched:
  "event_loop os app n c evs = (app', n', fx) \<Longrightarrow>
   b \<notin> set (exit_addresses (consumed n evs)) \<Longrightarrow> procs app' ! b = procs app ! b"
proof (induction evs arbitrary: app n c app' n' fx)
  case Nil
  then show ?case by simp
next
  case (Cons ev evs)
  show ?case
  proof (cases ev)
    case (ChildExit a w)
    show ?thesis
    proof (cases "n > 0")
      case True
      obtain a1 n1 f1 where r: "event_loop os (record_exit app a w) (n - 1) True evs = (a1, n1, f1)"
        by (metis prod_cases3)
      from Cons.prems True have nb: "b \<noteq> a" "b \<notin> set (exit_addresses (consumed (n - 1) evs))"
        by (auto simp: ChildExit)
      from Cons.prems True r have "app' = a1" by (auto simp: ChildExit Let_def)
      with Cons.IH [OF r nb(2)] nb(1) show ?thesis by simp
    next
      case False
      with Cons.prems show ?thesis by (auto simp: ChildExit)
    qed
  next
    case (SignalReceived s)
    show ?thesis
    proof (cases "n > 0")
      case True
      obtain a1 n1 f1 where r: "event_loop os app n True evs = (a1, n1, f1)"
        by (metis prod_cases3)
      from Cons.prems True have nb: "b \<notin> set (exit_addresses (consumed n evs))"
        by (auto simp: SignalReceived)
      from Cons.prems True r have "app' = a1" by (cases c) (auto simp: SignalReceived)
      with Cons.IH [OF r nb] show ?thesis by simp
    next
      case False
      with Cons.prems show ?thesis by (auto simp: SignalReceived)
    qed
  qed
qed

lemma consumed_exit_mem:
  "ChildExit a w \<in> set (consumed n evs) \<Longrightarrow> a \<in> set (exit_addresses (consumed n evs))"
proof (induction evs arbitrary: n)
  case Nil
  then show ?case by simp
next
  case (Cons ev evs)
  then show ?case by (cases ev) (auto split: if_splits)
qed

lemma loop_classified:
  "event_loop os app n c evs = (app', n', fx) \<Longrightarrow>
   ChildExit a w \<in> set (consumed n evs) \<Longrightarrow>
   distinct (exit_addresses (consumed n evs)) \<Longrightarrow>
   a < length (procs app) \<Longrightarrow>
   \<not> up (procs app' ! a) \<and>
   err (procs app' ! a) = (if isNormalExit w then None else Some AbnormalExit)"
proof (induction evs arbitrary: app n c app' n' fx)
  case Nil
  then show ?case by simp
next
  case (Cons ev evs)
  show ?case
  proof (cases ev)
    case (ChildExit a0 w0)
    show ?thesis
    proof (cases "n > 0")
      case True
      obtain a1 n1 f1 where r: "event_loop os (record_exit app a0 w0) (n - 1) True evs = (a1, n1, f1)"
        by (metis prod_cases3)
      from Cons.prems True r have eq: "app' = a1" by (auto simp: ChildExit Let_def)
      from Cons.prems True have d: "a0 \<notin> set (exit_addresses (consumed (n - 1) evs))"
        "distinct (exit_addresses (consumed (n - 1) evs))"
        by (auto simp: ChildExit)
      from Cons.prems True have m: "(a = a0 \<and> w = w0) \<or> ChildExit a w \<in> set (consumed (n - 1) evs)"
        by (auto simp: ChildExit)
      show ?thesis
      proof (cases "ChildExit a w \<in> set (consumed (n - 1) evs)")
        case True
        from Cons.IH [OF r True d(2)] Cons.prems(4) eq show ?thesis by simp
      next
        case False
        with m have e: "a = a0" "w = w0" by simp_all
        from loop_untouched [OF r d(1)] have "procs a1 ! a0 = procs (record_exit app a0 w0) ! a0" .
        with record_exit_at [of a0 app w0] Cons.prems(4) e eq show ?thesis by simp
      qed
    next
      case False
      with Cons.prems show ?thesis by (auto simp: ChildExit)
    qed
  next
    case (SignalReceived s)
    show ?thesis
    proof (cases "n > 0")
      case True
      obtain a1 n1 f1 where r: "event_loop os app n True evs = (a1, n1, f1)"
        by (metis prod_cases3)
      from Cons.prems True r have eq: "app' = a1" by (cases c) (auto simp: SignalReceived)
      from Cons.prems True have "ChildExit a w \<in> set (consumed n evs)"
        "distinct (exit_addresses (consumed n evs))"
        by (auto simp: SignalReceived)
      from Cons.IH [OF r this Cons.prems(4)] eq show ?thesis by simp
    next
      case False
      with Cons.prems show ?thesis by (auto simp: SignalReceived)
    qed
  qed
qed

lemma loop_err_origin:
  "event_loop os app n c evs = (app', n', fx) \<Longrightarrow>
   err (procs app' ! b) \<noteq> None \<Longrightarrow>
   err (procs app ! b) \<noteq> None \<or> (\<exists>w. ChildExit b w \<in> set (consumed n evs) \<and> \<not> isNormalExit w)"
proof (induction evs arbitrary: app n c app' n' fx)
  case Nil
  then show ?case by simp
next
  case (Cons ev evs)
  show ?case
  proof (cases ev)
    case (ChildExit a0 w0)
    show ?thesis
    proof (cases "n > 0")
      case True
      obtain a1 n1 f1 where r: "event_loop os (record_exit app a0 w0) (n - 1) True evs = (a1, n1, f1)"
        by (metis prod_cases3)
      from Cons.prems True r have eq: "app' = a1" by (auto simp: ChildExit Let_def)
      from Cons.IH [OF r] Cons.prems(2) eq
      have "err (procs (record_exit app a0 w0) ! b) \<noteq> None
            \<or> (\<exists>w. ChildExit b w \<in> set (consumed (n - 1) evs) \<and> \<not> isNormalExit w)" by simp
      with record_exit_err [of app a0 w0 b] True show ?thesis
        by (auto simp: ChildExit)
    next
      case False
      with Cons.prems show ?thesis by (auto simp: ChildExit)
    qed
  next
    case (SignalReceived s)
    show ?thesis
    proof (cases "n > 0")
      case True
      obtain a1 n1 f1 where r: "event_loop os app n True evs = (a1, n1, f1)"
        by (metis prod_cases3)
      from Cons.prems True r have eq: "app' = a1" by (cases c) (auto simp: SignalReceived)
      from Cons.IH [OF r] Cons.prems(2) eq True show ?thesis
        by (auto simp: SignalReceived)
    next
      case False
      with Cons.prems show ?thesis by (auto simp: SignalReceived)
    qed
  qed
qed

lemma loop_returns:
  "event_loop os app n c evs = (app', n', fx) \<Longrightarrow>
   n \<le> int (length (filter is_exit evs)) \<Longrightarrow> n' \<le> 0"
proof (induction evs arbitrary: app n c app' n' fx)
  case Nil
  then show ?case by simp
next
  case (Cons ev evs)
  show ?case
  proof (cases ev)
    case (ChildExit a0 w0)
    show ?thesis
    proof (cases "n > 0")
      case True
      obtain a1 n1 f1 where r: "event_loop os (record_exit app a0 w0) (n - 1) True evs = (a1, n1, f1)"
        by (metis prod_cases3)
      from Cons.prems True r have eq: "n' = n1" by (auto simp: ChildExit Let_def)
      from Cons.prems have "n - 1 \<le> int (length (filter is_exit evs))" by (simp add: ChildExit)
      from Cons.IH [OF r this] eq show ?thesis by simp
    next
      case False
      with Cons.prems show ?thesis by (auto simp: ChildExit)
    qed
  next
    case (SignalReceived s)
    show ?thesis
    proof (cases "n > 0")
      case True
      obtain a1 n1 f1 where r: "event_loop os app n True evs = (a1, n1, f1)"
        by (metis prod_cases3)
      from Cons.prems True r have eq: "n' = n1" by (cases c) (auto simp: SignalReceived)
      from Cons.prems have "n \<le> int (length (filter is_exit evs))" by (simp add: SignalReceived)
      from Cons.IH [OF r this] eq show ?thesis by simp
    next
      case False
      with Cons.prems show ?thesis by (auto simp: SignalReceived)
    qed
  qed
qed

lemma consumed_count:
  "0 \<le> n \<Longrightarrow> n \<le> int (length (filter is_exit evs)) \<Longrightarrow>
   length (exit_addresses (consumed n evs)) = nat n"
proof (induction evs arbitrary: n)
  case Nil
  then show ?case by simp
next
  case (Cons ev evs)
  show ?case
  proof (cases ev)
    case (ChildExit a0 w0)
    show ?thesis
    proof (cases "n > 0")
      case True
      with Cons.prems have "0 \<le> n - 1" "n - 1 \<le> int (length (filter is_exit evs))"
        by (simp_all add: ChildExit)
      from Cons.IH [OF this] True show ?thesis by (simp add: ChildExit nat_diff_distrib Suc_nat_eq_nat_zadd1)
    next
      case False
      with Cons.prems show ?thesis by (simp add: ChildExit)
    qed
  next
    case (SignalReceived s)
    show ?thesis
    proof (cases "n > 0")
      case True
      with Cons.prems Cons.IH [of n] show ?thesis by (simp add: SignalReceived)
    next
      case False
      with Cons.prems show ?thesis by (simp add: SignalReceived)
    qed
  qed
qed

lemma first_exit:
  assumes "0 < n" "event_loop os app n False (ChildExit a w # evs) = (app', n', fx)"
  shows "filter is_broadcast fx = [Broadcast SIGTERM] \<and>
         filter is_kill fx = map (\<lambda>(p, a). Kill (- p) SIGTERM) (alive (record_exit app a w))"
proof -
  obtain a1 n1 f1 where r: "event_loop os (record_exit app a w) (n - 1) True evs = (a1, n1, f1)"
    by (metis prod_cases3)
  from closing_quiet [OF r] assms r show ?thesis
    by (auto simp: Let_def shutdown_kills shutdown_broadcast)
qed

lemma first_signal:
  assumes "0 < n" "event_loop os app n False (SignalReceived s # evs) = (app', n', fx)"
  shows "filter is_broadcast fx = [Broadcast s] \<and>
         filter is_kill fx = map (\<lambda>(p, a). Kill (- p) s) (alive app)"
proof -
  obtain a1 n1 f1 where r: "event_loop os app n True evs = (a1, n1, f1)"
    by (metis prod_cases3)
  from closing_quiet [OF r] assms r show ?thesis
    by (auto simp: shutdown_kills shutdown_broadcast)
qed

lemma first_broadcast:
  assumes "0 < n" "event_loop os app n False (ev # evs) = (app', n', fx)"
  shows "filter is_broadcast fx = [Broadcast (trigger_signal ev)]"
  using assms first_exit first_signal by (cases ev) auto

lemma no_child_quiet:
  "\<not> 0 < n \<Longrightarrow> event_loop os app n c evs = (app, n, [])"
proof (cases evs)
  case Nil
  then show ?thesis by simp
next
  case (Cons ev evs')
  assume "\<not> 0 < n"
  then show ?thesis by (cases ev) (simp_all add: Cons)
qed

lemma handleEvents_broadcasts:
  "filter is_broadcast (fst (snd (handleEvents os app evs))) =
     (if subprocesses app = [] \<or> evs = [] then [] else [Broadcast (trigger_signal (hd evs))])"
proof -
  let ?n = "int (length (subprocesses app))"
  obtain a1 n1 f1 where r: "event_loop os app ?n False evs = (a1, n1, f1)"
    by (metis prod_cases3)
  have fx: "fst (snd (handleEvents os app evs)) = Notify # f1"
    by (simp add: handleEvents_def r)
  show ?thesis
  proof (cases "subprocesses app = [] \<or> evs = []")
    case True
    then have "f1 = []"
    proof
      assume "subprocesses app = []"
      with no_child_quiet [of ?n os app False evs] r show ?thesis by simp
    next
      assume "evs = []"
      with r show ?thesis by simp
    qed
    with True fx show ?thesis by simp
  next
    case False
    then obtain ev evs' where e: "evs = ev # evs'" and pos: "0 < ?n"
      by (cases evs) auto
    from first_broadcast [OF pos r [unfolded e]] fx False e show ?thesis by simp
  qed
qed

lemma example_results: "\<not> isNormalExit exit_status_1" "isNormalExit killed_by_SIGTERM"
  by (simp_all add: exit_status_1_def killed_by_SIGTERM_def Exited_def Signaled_def ExitStatus_def Signal_def SIGINT_def SIGTERM_def)

text \<open>
  Claim C3. In a run of \<^verbatim>\<open>handleEvents\<close> the shutdown is entered at most once.
  When there is a child, the first event of the run enters it (a completion event with
  \<^verbatim>\<open>SIGTERM\<close>, a signal with itself), already in the run that has this event
  alone, and the events after it add no second entry. The later events are still taken
  and classified: every completion event the loop takes leaves its subprocess marked
  down with the classification of its result (the completion events carry the addresses
  of distinct subprocesses, one for each child).
\<close>

theorem broadcast_once:
  "length (filter is_broadcast (fst (snd (handleEvents os app evs)))) \<le> 1
   \<and> (subprocesses app \<noteq> [] \<longrightarrow>
        filter is_broadcast (fst (snd (handleEvents os app (ev # evs))))
          = [Broadcast (trigger_signal ev)]
        \<and> filter is_broadcast (fst (snd (handleEvents os app [ev])))
          = [Broadcast (trigger_signal ev)])
   \<and> (\<forall>a w. ChildExit a w \<in> set (consumed (int (length (subprocesses app))) evs)
          \<and> distinct (exit_addresses (consumed (int (length (subprocesses app))) evs))
          \<and> a < length (procs app) \<longrightarrow>
          \<not> up (procs (fst (handleEvents os app evs)) ! a)
          \<and> err (procs (fst (handleEvents os app evs)) ! a)
              = (if isNormalExit w then None else Some AbnormalExit))"
proof -
  let ?n = "int (length (subprocesses app))"
  obtain a1 n1 f1 where r: "event_loop os app ?n False evs = (a1, n1, f1)"
    by (metis prod_cases3)
  have st: "fst (handleEvents os app evs) = a1"
    by (simp add: handleEvents_def r)
  have 1: "length (filter is_broadcast (fst (snd (handleEvents os app evs)))) \<le> 1"
    by (simp add: handleEvents_broadcasts)
  have 2: "subprocesses app \<noteq> [] \<longrightarrow>
        filter is_broadcast (fst (snd (handleEvents os app (ev # evs))))
          = [Broadcast (trigger_signal ev)]
        \<and> filter is_broadcast (fst (snd (handleEvents os app [ev])))
          = [Broadcast (trigger_signal ev)]"
    by (simp add: handleEvents_broadcasts)
  have 3: "\<not> up (procs (fst (handleEvents os app evs)) ! a)
          \<and> err (procs (fst (handleEvents os app evs)) ! a)
              = (if isNormalExit w then None else Some AbnormalExit)"
    if "ChildExit a w \<in> set (consumed ?n evs)" "distinct (exit_addresses (consumed ?n evs))"
      "a < length (procs app)" for a w
    unfolding st using loop_classified [OF r that] .
  from 1 2 3 show ?thesis by blast
qed

theorem broadcast_once_witness:
  "filter is_broadcast (fst (snd (handleEvents kill_ok two_children
      [ChildExit 1 exit_status_1, SignalReceived SIGINT, ChildExit 0 killed_by_SIGTERM])))
     = [Broadcast SIGTERM]
   \<and> \<not> up (procs (fst (handleEvents kill_ok two_children
      [ChildExit 1 exit_status_1, SignalReceived SIGINT, ChildExit 0 killed_by_SIGTERM])) ! 0)
   \<and> err (procs (fst (handleEvents kill_ok two_children
      [ChildExit 1 exit_status_1, SignalReceived SIGINT, ChildExit 0 killed_by_SIGTERM])) ! 1)
     = Some AbnormalExit"
proof -
  let ?evs = "[ChildExit 1 exit_status_1, SignalReceived SIGINT, ChildExit 0 killed_by_SIGTERM]"
  have ne: "subprocesses two_children \<noteq> []" by (simp add: two_children_def)
  have n: "int (length (subprocesses two_children)) = 2" by (simp add: two_children_def)
  have co: "consumed 2 ?evs = ?evs" by simp
  have m0: "ChildExit 0 killed_by_SIGTERM \<in> set (consumed (int (length (subprocesses two_children))) ?evs)"
    and m1: "ChildExit 1 exit_status_1 \<in> set (consumed (int (length (subprocesses two_children))) ?evs)"
    and d: "distinct (exit_addresses (consumed (int (length (subprocesses two_children))) ?evs))"
    unfolding n co by simp_all
  have l0: "0 < length (procs two_children)" and l1: "1 < length (procs two_children)"
    by (simp_all add: two_children_def)
  from broadcast_once [of kill_ok two_children "[SignalReceived SIGINT, ChildExit 0 killed_by_SIGTERM]"
      "ChildExit 1 exit_status_1"] ne
  have a: "filter is_broadcast (fst (snd (handleEvents kill_ok two_children ?evs)))
     = [Broadcast SIGTERM]" by simp
  from broadcast_once [of kill_ok two_children ?evs] m0 d l0
  have b: "\<not> up (procs (fst (handleEvents kill_ok two_children ?evs)) ! 0)" by blast
  from broadcast_once [of kill_ok two_children ?evs] m1 d l1
  have "err (procs (fst (handleEvents kill_ok two_children ?evs)) ! 1)
     = (if isNormalExit exit_status_1 then None else Some AbnormalExit)" by blast
  with example_results a b show ?thesis by simp
qed

text \<open>
  Claim C8. When the first event of a run is a signal \<open>s\<close>, the shutdown is entered
  with \<open>s\<close> itself and \<^verbatim>\<open>Kill\<close> is called with \<open>s\<close> on minus the process id of
  every subprocess that is up, and on nothing else. When the first event is the
  completion of a child, the shutdown is entered with \<^verbatim>\<open>SIGTERM\<close>, and \<^verbatim>\<open>Kill\<close>
  is called with \<^verbatim>\<open>SIGTERM\<close> on minus the process id of every subprocess still up
  after that child has been marked down.
\<close>

theorem broadcast_signal:
  assumes "subprocesses app \<noteq> []"
  shows "filter is_broadcast (fst (snd (handleEvents os app (SignalReceived s # evs))))
           = [Broadcast s]
       \<and> filter is_kill (fst (snd (handleEvents os app (SignalReceived s # evs))))
           = map (\<lambda>(p, a). Kill (- p) s) (alive app)
       \<and> filter is_broadcast (fst (snd (handleEvents os app (ChildExit a w # evs))))
           = [Broadcast SIGTERM]
       \<and> filter is_kill (fst (snd (handleEvents os app (ChildExit a w # evs))))
           = map (\<lambda>(p, a). Kill (- p) SIGTERM) (alive (record_exit app a w))"
proof -
  let ?n = "int (length (subprocesses app))"
  from assms have pos: "0 < ?n" by simp
  obtain a1 n1 f1 where r1: "event_loop os app ?n False (SignalReceived s # evs) = (a1, n1, f1)"
    by (metis prod_cases3)
  obtain a2 n2 f2 where r2: "event_loop os app ?n False (ChildExit a w # evs) = (a2, n2, f2)"
    by (metis prod_cases3)
  have fx1: "fst (snd (handleEvents os app (SignalReceived s # evs))) = Notify # f1"
    by (simp only: handleEvents_def r1) simp
  have fx2: "fst (snd (handleEvents os app (ChildExit a w # evs))) = Notify # f2"
    by (simp only: handleEvents_def r2) simp
  from first_signal [OF pos r1] first_exit [OF pos r2] show ?thesis
    unfolding fx1 fx2 by simp
qed

theorem broadcast_signal_witness:
  "filter is_kill (fst (snd (handleEvents kill_ok two_children [SignalReceived SIGINT])))
     = [Kill (- 100) SIGINT, Kill (- 101) SIGINT]
   \<and> filter is_kill (fst (snd (handleEvents kill_ok two_children [ChildExit 0 None])))
     = [Kill (- 101) SIGTERM]"
proof -
  have ne: "subprocesses two_children \<noteq> []" by (simp add: two_children_def)
  have a1: "alive two_children = [(100, 0), (101, 1)]"
    by (simp add: alive_def two_children_def)
  have a2: "alive (record_exit two_children 0 None) = [(101, 1)]"
    by (simp add: alive_def record_exit_def two_children_def)
  from broadcast_signal [OF ne, of kill_ok SIGINT "[]" 0 None] show ?thesis
    unfolding a1 a2 by simp
qed

text \<open>
  Claim C9. \<^verbatim>\<open>shutdown\<close> calls \<^verbatim>\<open>Kill\<close> once for each entry whose subprocess
  is up, on minus its process id and with the given signal, whatever the calls answer: a
  failure does not end the loop over the entries. It prints an error for exactly the
  calls that fail with an error other than \<^verbatim>\<open>ESRCH\<close>; \<^verbatim>\<open>ESRCH\<close> and success
  print nothing. The answers of \<^verbatim>\<open>Kill\<close> change neither the state that
  \<^verbatim>\<open>handleEvents\<close> ends in nor what it returns.
\<close>

theorem shutdown_alive_only:
  "filter is_kill (shutdown os app s) = map (\<lambda>(p, a). Kill (- p) s) (alive app)
   \<and> (Eprint msg \<in> set (shutdown os app s) \<longleftrightarrow>
        (\<exists>(p, a) \<in> set (alive app).
           \<exists>e. os (- p) s = Some e \<and> e \<noteq> ESRCH \<and> msg = ErrorKilling p e))
   \<and> fst (handleEvents os app evs) = fst (handleEvents os' app evs)
   \<and> snd (snd (handleEvents os app evs)) = snd (snd (handleEvents os' app evs))"
proof -
  let ?n = "int (length (subprocesses app))"
  obtain a1 n1 f1 where r: "event_loop os app ?n False evs = (a1, n1, f1)"
    by (metis prod_cases3)
  from event_loop_os [OF r] obtain f2 where r': "event_loop os' app ?n False evs = (a1, n1, f2)"
    by blast
  have "fst (handleEvents os app evs) = fst (handleEvents os' app evs)"
    "snd (snd (handleEvents os app evs)) = snd (snd (handleEvents os' app evs))"
    by (simp_all add: handleEvents_def r r')
  then show ?thesis
    using shutdown_kills [of os app s] shutdown_eprint [of msg os app s] by blast
qed

text \<open>
  With both children up, the first call answering \<^verbatim>\<open>ESRCH\<close> and the second
  \<^verbatim>\<open>EPERM\<close>: both groups are signalled, and only the second failure is printed.
\<close>

theorem shutdown_alive_only_witness:
  "filter is_kill (shutdown kill_fails two_children SIGTERM)
     = [Kill (- 100) SIGTERM, Kill (- 101) SIGTERM]
   \<and> Eprint (ErrorKilling 101 1) \<in> set (shutdown kill_fails two_children SIGTERM)
   \<and> Eprint (ErrorKilling 100 ESRCH) \<notin> set (shutdown kill_fails two_children SIGTERM)"
proof -
  have al: "alive two_children = [(100, 0), (101, 1)]"
    by (simp add: alive_def two_children_def)
  have 1: "filter is_kill (shutdown kill_fails two_children SIGTERM)
     = [Kill (- 100) SIGTERM, Kill (- 101) SIGTERM]"
    using shutdown_alive_only [of kill_fails two_children SIGTERM, THEN conjunct1]
    unfolding al by simp
  have 2: "Eprint (ErrorKilling 101 1) \<in> set (shutdown kill_fails two_children SIGTERM)"
    using shutdown_alive_only [of kill_fails two_children SIGTERM "ErrorKilling 101 1",
        THEN conjunct2, THEN conjunct1]
    unfolding al by (simp add: kill_fails_def ESRCH_def)
  have 3: "Eprint (ErrorKilling 100 ESRCH) \<notin> set (shutdown kill_fails two_children SIGTERM)"
    using shutdown_alive_only [of kill_fails two_children SIGTERM "ErrorKilling 100 ESRCH",
        THEN conjunct2, THEN conjunct1]
    unfolding al by (simp add: kill_fails_def ESRCH_def)
  from 1 2 3 show ?thesis by simp
qed

section \<open>Properties of the launch and of the program\<close>

lemma update_fresh: "p \<notin> fst ` set al \<Longrightarrow> AList.update p v al = al @ [(p, v)]"
  by (induction al) auto

lemma numbered_Nil [simp]: "numbered k [] = []"
  by (simp add: numbered_def)

lemma numbered_Cons [simp]: "numbered k (c # cs) = (k, c) # numbered (Suc k) cs"
proof -
  have "[k..<k + length (c # cs)] = k # [Suc k..<Suc k + length cs]"
    by (subst upt_rec) simp
  then show ?thesis by (simp only: numbered_def zip_Cons_Cons)
qed

lemma failed_simps [simp]:
  "failed os k [] = []"
  "failed os k (c # cs) = (if os k = None then c # failed os (Suc k) cs else failed os (Suc k) cs)"
  by (simp_all add: failed_def)

lemma launched_simps [simp]:
  "launched os k [] = []"
  "launched os k (c # cs) =
     (case os k of None \<Rightarrow> launched os (Suc k) cs | Some p \<Rightarrow> (c, p) # launched os (Suc k) cs)"
  by (simp_all add: launched_def split: option.splits)


lemma start_chained:
  "\<forall>x\<in>set pre. \<not> isChained x \<Longrightarrow> isChained c \<Longrightarrow>
   startSubprocesses os k app (pre @ c # post) = (app', fx, e) \<Longrightarrow>
   e \<and> filter is_start fx = map Start pre \<and> Notify \<notin> set fx
   \<and> filter is_kill fx = [] \<and> filter is_broadcast fx = []"
proof (induction pre arbitrary: k app app' fx e)
  case Nil
  then show ?case by simp
next
  case (Cons x pre)
  from Cons.prems have nx: "\<not> isChained x" and np: "\<forall>x\<in>set pre. \<not> isChained x" by simp_all
  show ?case
  proof (cases "os k")
    case None
    obtain a1 f1 e1 where r: "startSubprocesses os (Suc k) app (pre @ c # post) = (a1, f1, e1)"
      by (metis prod_cases3)
    from Cons.IH [OF np Cons.prems(2) r] Cons.prems(3) nx None r show ?thesis
      by auto
  next
    case (Some p)
    let ?app = "app\<lparr>procs := procs app @ [\<lparr>command = x, pid = p, up = True, err = None\<rparr>],
                   subprocesses := AList.update p (length (procs app)) (subprocesses app)\<rparr>"
    obtain a1 f1 e1 where r: "startSubprocesses os (Suc k) ?app (pre @ c # post) = (a1, f1, e1)"
      by (metis prod_cases3)
    from Cons.IH [OF np Cons.prems(2) r] Cons.prems(3) nx Some r show ?thesis
      by (auto simp: logf_def)
  qed
qed

lemma start_ok:
  "\<forall>c\<in>set cs. \<not> isChained c \<Longrightarrow>
   startSubprocesses os k app cs = (app', fx, e) \<Longrightarrow>
   \<not> e \<and> verbose app' = verbose app
   \<and> filter is_start fx = map Start cs
   \<and> filter is_eprint fx = map (\<lambda>c. Eprint (ErrorStarting c)) (failed os k cs)
   \<and> procs app' = procs app @ map fresh_proc (launched os k cs)
   \<and> fst ` set (subprocesses app') = fst ` set (subprocesses app) \<union> snd ` set (launched os k cs)
   \<and> Notify \<notin> set fx \<and> filter is_kill fx = [] \<and> filter is_broadcast fx = []"
proof (induction cs arbitrary: k app app' fx e)
  case Nil
  then show ?case by simp
next
  case (Cons x cs)
  from Cons.prems have nx: "\<not> isChained x" and np: "\<forall>x\<in>set cs. \<not> isChained x" by simp_all
  show ?case
  proof (cases "os k")
    case None
    obtain a1 f1 e1 where r: "startSubprocesses os (Suc k) app cs = (a1, f1, e1)"
      by (metis prod_cases3)
    from Cons.IH [OF np r] Cons.prems(2) nx None r show ?thesis
      by auto
  next
    case (Some p)
    let ?app = "app\<lparr>procs := procs app @ [\<lparr>command = x, pid = p, up = True, err = None\<rparr>],
                   subprocesses := AList.update p (length (procs app)) (subprocesses app)\<rparr>"
    obtain a1 f1 e1 where r: "startSubprocesses os (Suc k) ?app cs = (a1, f1, e1)"
      by (metis prod_cases3)
    from Cons.IH [OF np r] Cons.prems(2) nx Some r show ?thesis
      by (auto simp: logf_def fresh_proc_def dom_update)
  qed
qed

lemma start_map:
  "\<forall>c\<in>set cs. \<not> isChained c \<Longrightarrow>
   startSubprocesses os k app cs = (app', fx, e) \<Longrightarrow>
   map snd (subprocesses app) = [0..<length (procs app)] \<Longrightarrow>
   distinct (map fst (subprocesses app) @ map snd (launched os k cs)) \<Longrightarrow>
   map snd (subprocesses app') = [0..<length (procs app')]"
proof (induction cs arbitrary: k app app' fx e)
  case Nil
  then show ?case by simp
next
  case (Cons x cs)
  from Cons.prems have nx: "\<not> isChained x" and np: "\<forall>x\<in>set cs. \<not> isChained x" by simp_all
  show ?case
  proof (cases "os k")
    case None
    obtain a1 f1 e1 where r: "startSubprocesses os (Suc k) app cs = (a1, f1, e1)"
      by (metis prod_cases3)
    from Cons.prems(4) None have d: "distinct (map fst (subprocesses app) @ map snd (launched os (Suc k) cs))"
      by simp
    from Cons.IH [OF np r Cons.prems(3) d] Cons.prems(2) nx None r show ?thesis
      by auto
  next
    case (Some p)
    let ?app = "app\<lparr>procs := procs app @ [\<lparr>command = x, pid = p, up = True, err = None\<rparr>],
                   subprocesses := AList.update p (length (procs app)) (subprocesses app)\<rparr>"
    obtain a1 f1 e1 where r: "startSubprocesses os (Suc k) ?app cs = (a1, f1, e1)"
      by (metis prod_cases3)
    from Cons.prems(4) Some have fr: "p \<notin> fst ` set (subprocesses app)"
      and d0: "distinct (map fst (subprocesses app) @ p # map snd (launched os (Suc k) cs))"
      by auto
    have upd: "subprocesses ?app = subprocesses app @ [(p, length (procs app))]"
      using fr by (simp add: update_fresh)
    have m: "map snd (subprocesses ?app) = [0..<length (procs ?app)]"
      using Cons.prems(3) by (simp add: upd)
    have d: "distinct (map fst (subprocesses ?app) @ map snd (launched os (Suc k) cs))"
      using d0 by (simp add: upd)
    from Cons.IH [OF np r m d] Cons.prems(2) nx Some r show ?thesis
      by auto
  qed
qed

lemma start_all_fail:
  "\<forall>c\<in>set cs. \<not> isChained c \<Longrightarrow> \<forall>i<length cs. os (k + i) = None \<Longrightarrow>
   startSubprocesses os k app cs
     = (app, concat (map (\<lambda>c. [Start c, Eprint (ErrorStarting c)]) cs), False)"
proof (induction cs arbitrary: k)
  case Nil
  then show ?case by simp
next
  case (Cons c cs)
  from Cons.prems have "os k = None" by force
  moreover from Cons.prems have "\<forall>i<length cs. os (Suc k + i) = None" by force
  ultimately show ?case using Cons.IH [of "Suc k"] Cons.prems(1) by simp
qed

lemma main_chained:
  assumes "\<forall>x\<in>set pre. \<not> isChained x" "isChained c"
  shows "snd (main v (pre @ c # post) start kill evs) = Some 2
     \<and> filter is_start (fst (main v (pre @ c # post) start kill evs)) = map Start pre
     \<and> filter is_eprint (fst (main v (pre @ c # post) start kill evs)) \<noteq> []
     \<and> Notify \<notin> set (fst (main v (pre @ c # post) start kill evs))
     \<and> filter is_kill (fst (main v (pre @ c # post) start kill evs)) = []
     \<and> filter is_broadcast (fst (main v (pre @ c # post) start kill evs)) = []"
proof -
  let ?app = "\<lparr>verbose = v, procs = [], subprocesses = []\<rparr>"
  obtain a1 f1 e1 where r: "startSubprocesses start 0 ?app (pre @ c # post) = (a1, f1, e1)"
    by (metis prod_cases3)
  from start_chained [OF assms r] have e1 and
    f: "filter is_start f1 = map Start pre" "Notify \<notin> set f1" "filter is_kill f1 = []"
      "filter is_broadcast f1 = []"
    by simp_all
  have "main v (pre @ c # post) start kill evs = (f1 @ [Eprint ChainedNotSupported], Some 2)"
    using r \<open>e1\<close> by (simp add: main_def)
  with f show ?thesis by simp
qed

lemma main_all_fail:
  assumes "cs \<noteq> []" "\<forall>c\<in>set cs. \<not> isChained c" "\<forall>i<length cs. start i = None"
  shows "main v cs start kill evs
     = (concat (map (\<lambda>c. [Start c, Eprint (ErrorStarting c)]) cs) @ logf v NoProcessesStarted,
        Some 1)"
proof -
  let ?app = "\<lparr>verbose = v, procs = [], subprocesses = []\<rparr>"
  from assms(3) have "\<forall>i<length cs. start (0 + i) = None" by simp
  from start_all_fail [OF assms(2) this, of ?app] assms(1) show ?thesis
    by (simp add: main_def)
qed

lemma main_supervised:
  assumes nc: "\<forall>c\<in>set cs. \<not> isChained c"
    and some: "launched start 0 cs \<noteq> []"
    and dp: "distinct (map snd (launched start 0 cs))"
    and N: "N = length (launched start 0 cs)"
    and de: "distinct (exit_addresses (consumed (int N) evs))"
    and va: "\<forall>a\<in>set (exit_addresses (consumed (int N) evs)). a < N"
    and en: "N \<le> length (filter is_exit evs)"
  shows "snd (main v cs start kill evs)
           = Some (if \<exists>a w. ChildExit a w \<in> set (consumed (int N) evs) \<and> \<not> isNormalExit w
                   then 1 else 0)
         \<and> set (exit_addresses (consumed (int N) evs)) = {..<N}"
proof -
  let ?app = "\<lparr>verbose = v, procs = [], subprocesses = []\<rparr>"
  obtain a1 f1 e1 where r: "startSubprocesses start 0 ?app cs = (a1, f1, e1)"
    by (metis prod_cases3)
  from start_ok [OF nc r] have e1: "\<not> e1"
    and p1: "procs a1 = map fresh_proc (launched start 0 cs)" by simp_all
  from start_map [OF nc r] dp have m1: "map snd (subprocesses a1) = [0..<length (procs a1)]"
    by simp
  from p1 N have lp: "length (procs a1) = N" by simp
  from m1 lp have ls: "length (subprocesses a1) = N"
    by (metis length_map length_upt minus_nat.diff_0)
  from some N have Npos: "0 < N" by simp
  from some have csne: "cs \<noteq> []" by auto
  have init: "err (procs a1 ! b) = None" if "b < N" for b
    using that p1 N by (simp add: fresh_proc_def split: prod.splits)
  have addrs: "snd ` set (subprocesses a1) = {..<N}"
  proof -
    have "snd ` set (subprocesses a1) = set (map snd (subprocesses a1))" by simp
    also have "\<dots> = {..<N}" unfolding m1 lp by auto
    finally show ?thesis .
  qed
  obtain a2 n2 f2 where l: "event_loop kill a1 (int N) False evs = (a2, n2, f2)"
    by (metis prod_cases3)
  from loop_returns [OF l] en have n2: "n2 \<le> 0" by simp
  from event_loop_frame [OF l] have s2: "subprocesses a2 = subprocesses a1" by simp
  let ?abn = "\<exists>a w. ChildExit a w \<in> set (consumed (int N) evs) \<and> \<not> isNormalExit w"
  have verdict: "list_ex (\<lambda>(p, a). err (procs a2 ! a) \<noteq> None) (subprocesses a2) \<longleftrightarrow> ?abn"
  proof
    assume "list_ex (\<lambda>(p, a). err (procs a2 ! a) \<noteq> None) (subprocesses a2)"
    then obtain p b where pb: "(p, b) \<in> set (subprocesses a1)" "err (procs a2 ! b) \<noteq> None"
      unfolding s2 by (auto simp: list_ex_iff)
    from pb(1) addrs have "b < N" by force
    then have "err (procs a1 ! b) = None" by (rule init)
    with loop_err_origin [OF l pb(2)] show ?abn by auto
  next
    assume ?abn
    then obtain a w where aw: "ChildExit a w \<in> set (consumed (int N) evs)" "\<not> isNormalExit w"
      by blast
    from consumed_exit_mem [OF aw(1)] va have aN: "a < N" by blast
    with lp have "a < length (procs a1)" by simp
    from loop_classified [OF l aw(1) de this] aw(2) have "err (procs a2 ! a) \<noteq> None" by simp
    moreover from aN addrs have "a \<in> snd ` set (subprocesses a1)" by simp
    then obtain p where "(p, a) \<in> set (subprocesses a1)" by auto
    ultimately show "list_ex (\<lambda>(p, a). err (procs a2 ! a) \<noteq> None) (subprocesses a2)"
      unfolding s2 by (auto simp: list_ex_iff)
  qed
  have h: "handleEvents kill a1 evs
      = (a2, Notify # f2, Some (list_ex (\<lambda>(p, a). err (procs a2 ! a) \<noteq> None) (subprocesses a2)))"
    using l n2 by (simp add: handleEvents_def ls)
  from ls Npos have ne: "subprocesses a1 \<noteq> []" by auto
  have h': "handleEvents kill a1 evs = (a2, Notify # f2, Some ?abn)"
    by (simp only: h verdict)
  have code: "snd (main v cs start kill evs) = Some (if ?abn then 1 else 0)"
    using r e1 csne ne by (cases ?abn) (simp_all add: main_def h')
  have "length (exit_addresses (consumed (int N) evs)) = N"
    using consumed_count [of "int N" evs] en by simp
  with de have "card (set (exit_addresses (consumed (int N) evs))) = N"
    by (simp add: distinct_card)
  moreover from va have "set (exit_addresses (consumed (int N) evs)) \<subseteq> {..<N}" by auto
  ultimately have "set (exit_addresses (consumed (int N) evs)) = {..<N}"
    by (simp add: card_subset_eq)
  with code show ?thesis by simp
qed

lemma main_any_chained:
  assumes "\<exists>c\<in>set cs. isChained c"
  shows "snd (main v cs start kill evs) = Some 2"
proof -
  from assms obtain pre c post where "cs = pre @ c # post" "isChained c"
    "\<forall>x\<in>set pre. \<not> isChained x"
    by (metis split_list_first_prop)
  with main_chained [of pre c v post start kill evs] show ?thesis by simp
qed

lemma example_commands: "\<not> isChained (runes ''a'')" "\<not> isChained (runes ''b'')"
  "isChained (runes ''b;c'')"
  by (simp_all add: isChained_def runes_def rune_defs)

text \<open>
  Claim C2. The status that \<^verbatim>\<open>main\<close> gives to \<^verbatim>\<open>os.Exit\<close> is 2 when no command
  is given and 2 when some command is chained; it is 1 when commands are given, none is
  chained and no start succeeds. When at least one child is started it is 1 if some
  child was classified abnormal and 0 if every child was classified normal. The last
  case is about runs that end: the children have pairwise distinct process ids, and the
  loop receives one completion event from the waiter of each child. Then
  \<^verbatim>\<open>handleEvents\<close> returns and every child has been classified.
\<close>

theorem supervisor_exit_code:
  "snd (main v [] start kill evs) = Some 2
   \<and> ((\<exists>c\<in>set cs. isChained c) \<longrightarrow> snd (main v cs start kill evs) = Some 2)
   \<and> (cs \<noteq> [] \<and> (\<forall>c\<in>set cs. \<not> isChained c) \<and> (\<forall>i<length cs. start i = None) \<longrightarrow>
        snd (main v cs start kill evs) = Some 1)
   \<and> ((\<forall>c\<in>set cs. \<not> isChained c) \<and> launched start 0 cs \<noteq> []
        \<and> distinct (map snd (launched start 0 cs))
        \<and> distinct (exit_addresses (consumed (int (length (launched start 0 cs))) evs))
        \<and> (\<forall>a\<in>set (exit_addresses (consumed (int (length (launched start 0 cs))) evs)).
              a < length (launched start 0 cs))
        \<and> length (launched start 0 cs) \<le> length (filter is_exit evs) \<longrightarrow>
        snd (main v cs start kill evs)
          = Some (if \<exists>a w. ChildExit a w
                         \<in> set (consumed (int (length (launched start 0 cs))) evs)
                       \<and> \<not> isNormalExit w
                  then 1 else 0)
        \<and> set (exit_addresses (consumed (int (length (launched start 0 cs))) evs))
            = {..<length (launched start 0 cs)})"
proof -
  have 1: "snd (main v [] start kill evs) = Some 2" by (simp add: main_def)
  from 1 main_any_chained [of cs v start kill evs] main_all_fail [of cs start v kill evs]
    main_supervised [of cs start "length (launched start 0 cs)" evs v kill]
  show ?thesis by (simp (no_asm_simp))
qed

theorem supervisor_exit_code_witness:
  "snd (main False [runes ''a'', runes ''b;c''] pids_from_100 kill_ok []) = Some 2
   \<and> snd (main False [runes ''a'', runes ''b''] (\<lambda>k. None) kill_ok []) = Some 1
   \<and> snd (main False [runes ''a'', runes ''b''] pids_from_100 kill_ok
        [ChildExit 1 exit_status_1, SignalReceived SIGINT, ChildExit 0 killed_by_SIGTERM])
       = Some 1
   \<and> snd (main False [runes ''a'', runes ''b''] pids_from_100 kill_ok
        [SignalReceived SIGTERM, ChildExit 0 killed_by_SIGTERM, ChildExit 1 None])
       = Some 0"
proof -
  have a: "snd (main False [runes ''a'', runes ''b;c''] pids_from_100 kill_ok []) = Some 2"
  proof -
    have "\<exists>c\<in>set [runes ''a'', runes ''b;c'']. isChained c" using example_commands by simp
    with supervisor_exit_code [of False pids_from_100 kill_ok "[]" "[runes ''a'', runes ''b;c'']"]
    show ?thesis by blast
  qed
  have b: "snd (main False [runes ''a'', runes ''b''] (\<lambda>k. None) kill_ok []) = Some 1"
  proof -
    let ?cs = "[runes ''a'', runes ''b'']"
    have "?cs \<noteq> [] \<and> (\<forall>c\<in>set ?cs. \<not> isChained c) \<and> (\<forall>i<length ?cs. (\<lambda>k. None :: int option) i = None)"
      using example_commands by simp
    with supervisor_exit_code [of False "\<lambda>k. None" kill_ok "[]" ?cs]
    show ?thesis by blast
  qed
  have c: "snd (main False [runes ''a'', runes ''b''] pids_from_100 kill_ok
        [ChildExit 1 exit_status_1, SignalReceived SIGINT, ChildExit 0 killed_by_SIGTERM])
       = Some 1"
  proof -
    let ?cs = "[runes ''a'', runes ''b'']"
    let ?evs = "[ChildExit 1 exit_status_1, SignalReceived SIGINT, ChildExit 0 killed_by_SIGTERM]"
    have l: "launched pids_from_100 0 ?cs = [(runes ''a'', 100), (runes ''b'', 101)]"
      by (simp add: pids_from_100_def)
    have n: "int (length (launched pids_from_100 0 ?cs)) = 2" unfolding l by simp
    have co: "consumed 2 ?evs = ?evs" by simp
    have h1: "\<forall>c\<in>set ?cs. \<not> isChained c" using example_commands by simp
    have h2: "launched pids_from_100 0 ?cs \<noteq> []" unfolding l by simp
    have h3: "distinct (map snd (launched pids_from_100 0 ?cs))" unfolding l by simp
    have h4: "distinct (exit_addresses (consumed (int (length (launched pids_from_100 0 ?cs))) ?evs))"
      unfolding n co by simp
    have h5: "\<forall>a\<in>set (exit_addresses (consumed (int (length (launched pids_from_100 0 ?cs))) ?evs)).
        a < length (launched pids_from_100 0 ?cs)"
      unfolding n co unfolding l by simp
    have h6: "length (launched pids_from_100 0 ?cs) \<le> length (filter is_exit ?evs)"
      unfolding l by simp
    have ab: "\<exists>a w. ChildExit a w \<in> set (consumed (int (length (launched pids_from_100 0 ?cs))) ?evs)
        \<and> \<not> isNormalExit w"
      unfolding n co using example_results by auto
    from supervisor_exit_code [of False pids_from_100 kill_ok ?evs ?cs] h1 h2 h3 h4 h5 h6
    have "snd (main False ?cs pids_from_100 kill_ok ?evs)
            = Some (if \<exists>a w. ChildExit a w
                           \<in> set (consumed (int (length (launched pids_from_100 0 ?cs))) ?evs)
                         \<and> \<not> isNormalExit w
                    then 1 else 0)" by blast
    with ab show ?thesis by simp
  qed
  have d: "snd (main False [runes ''a'', runes ''b''] pids_from_100 kill_ok
        [SignalReceived SIGTERM, ChildExit 0 killed_by_SIGTERM, ChildExit 1 None])
       = Some 0"
  proof -
    let ?cs = "[runes ''a'', runes ''b'']"
    let ?evs = "[SignalReceived SIGTERM, ChildExit 0 killed_by_SIGTERM, ChildExit 1 None]"
    have l: "launched pids_from_100 0 ?cs = [(runes ''a'', 100), (runes ''b'', 101)]"
      by (simp add: pids_from_100_def)
    have n: "int (length (launched pids_from_100 0 ?cs)) = 2" unfolding l by simp
    have co: "consumed 2 ?evs = ?evs" by simp
    have h1: "\<forall>c\<in>set ?cs. \<not> isChained c" using example_commands by simp
    have h2: "launched pids_from_100 0 ?cs \<noteq> []" unfolding l by simp
    have h3: "distinct (map snd (launched pids_from_100 0 ?cs))" unfolding l by simp
    have h4: "distinct (exit_addresses (consumed (int (length (launched pids_from_100 0 ?cs))) ?evs))"
      unfolding n co by simp
    have h5: "\<forall>a\<in>set (exit_addresses (consumed (int (length (launched pids_from_100 0 ?cs))) ?evs)).
        a < length (launched pids_from_100 0 ?cs)"
      unfolding n co unfolding l by simp
    have h6: "length (launched pids_from_100 0 ?cs) \<le> length (filter is_exit ?evs)"
      unfolding l by simp
    have ab: "\<not> (\<exists>a w. ChildExit a w \<in> set (consumed (int (length (launched pids_from_100 0 ?cs))) ?evs)
        \<and> \<not> isNormalExit w)"
      unfolding n co
    proof
      assume "\<exists>a w. ChildExit a w \<in> set ?evs \<and> \<not> isNormalExit w"
      then obtain a w where aw: "ChildExit a w \<in> set ?evs" "\<not> isNormalExit w" by blast
      then have "w = killed_by_SIGTERM \<or> w = None" by auto
      with aw(2) example_results show False by auto
    qed
    from supervisor_exit_code [of False pids_from_100 kill_ok ?evs ?cs] h1 h2 h3 h4 h5 h6
    have "snd (main False ?cs pids_from_100 kill_ok ?evs)
            = Some (if \<exists>a w. ChildExit a w
                           \<in> set (consumed (int (length (launched pids_from_100 0 ?cs))) ?evs)
                         \<and> \<not> isNormalExit w
                    then 1 else 0)" by blast
    with ab show ?thesis by simp
  qed
  from a b c d show ?thesis by simp
qed

text \<open>
  Claim C5, as the code has it. The launch stops at the first chained command: no
  process is started for it or for any command after it, an error is printed, nothing
  is signalled, the event loop is not entered, and the exit status is 2. Every command
  before it in the list has been started already, in order, and is left as it is.
\<close>

theorem chained_aborts_at_first:
  assumes "\<forall>x\<in>set pre. \<not> isChained x" "isChained c"
  shows "snd (main v (pre @ c # post) start kill evs) = Some 2
     \<and> filter is_start (fst (main v (pre @ c # post) start kill evs)) = map Start pre
     \<and> filter is_eprint (fst (main v (pre @ c # post) start kill evs)) \<noteq> []
     \<and> Notify \<notin> set (fst (main v (pre @ c # post) start kill evs))
     \<and> filter is_kill (fst (main v (pre @ c # post) start kill evs)) = []
     \<and> filter is_broadcast (fst (main v (pre @ c # post) start kill evs)) = []"
  using assms by (rule main_chained)

theorem chained_aborts_at_first_witness:
  "snd (main False ([runes ''a''] @ runes ''b;c'' # [runes ''b'']) pids_from_100 kill_ok [])
      = Some 2
   \<and> filter is_start
        (fst (main False ([runes ''a''] @ runes ''b;c'' # [runes ''b'']) pids_from_100 kill_ok []))
      = [Start (runes ''a'')]"
proof -
  have "\<forall>x\<in>set [runes ''a'']. \<not> isChained x" using example_commands by simp
  from chained_aborts_at_first [OF this example_commands(3), of False "[runes ''b'']"
      pids_from_100 kill_ok "[]"]
  show ?thesis by simp
qed

text \<open>
  The claim's "before any process is spawned for any command in the batch" does not
  hold: for the commands \<open>a\<close> and \<open>b;c\<close> the second is chained, and \<open>a\<close> has been
  started when the launch stops.
\<close>

theorem chained_batch_counterexample:
  "isChained (runes ''b;c'')
   \<and> Start (runes ''a'')
       \<in> set (fst (main False [runes ''a'', runes ''b;c''] pids_from_100 kill_ok []))"
  using example_commands by (simp add: main_def pids_from_100_def logf_def)

text \<open>
  Claim C7. A start that fails is printed as an error and nothing more: the launch goes
  on with the commands that follow, from the same state, as it would without the
  failed command. So for commands that the validator accepts, every command of the list
  is started in order, the commands printed as failed are exactly those whose start
  failed, and the store and the map gain exactly the commands whose start succeeded.
  When there is a command, all are accepted and every start fails, \<^verbatim>\<open>main\<close> starts
  each one, prints each failure and exits with status 1; \<^verbatim>\<open>handleEvents\<close> is not
  entered (no \<open>Notify\<close>), whatever events are pending.
\<close>

theorem start_failure_not_fatal:
  "(\<not> isChained c \<and> os k = None \<longrightarrow>
      startSubprocesses os k app (c # cs)
        = (case startSubprocesses os (Suc k) app cs of
             (app', fx, e) \<Rightarrow> (app', Start c # Eprint (ErrorStarting c) # fx, e)))
   \<and> ((\<forall>c\<in>set cs. \<not> isChained c) \<longrightarrow>
        (case startSubprocesses os k app cs of
           (app', fx, e) \<Rightarrow>
             \<not> e \<and> filter is_start fx = map Start cs
             \<and> filter is_eprint fx = map (\<lambda>c. Eprint (ErrorStarting c)) (failed os k cs)
             \<and> procs app' = procs app @ map fresh_proc (launched os k cs)
             \<and> fst ` set (subprocesses app')
                 = fst ` set (subprocesses app) \<union> snd ` set (launched os k cs)))
   \<and> (cs \<noteq> [] \<and> (\<forall>c\<in>set cs. \<not> isChained c) \<and> (\<forall>i<length cs. os i = None) \<longrightarrow>
        main v cs os kill evs
          = (concat (map (\<lambda>c. [Start c, Eprint (ErrorStarting c)]) cs)
               @ logf v NoProcessesStarted,
             Some 1))"
proof -
  have 1: "startSubprocesses os k app (c # cs)
        = (case startSubprocesses os (Suc k) app cs of
             (app', fx, e) \<Rightarrow> (app', Start c # Eprint (ErrorStarting c) # fx, e))"
    if "\<not> isChained c" "os k = None"
    using that by simp
  have 2: "case startSubprocesses os k app cs of
           (app', fx, e) \<Rightarrow>
             \<not> e \<and> filter is_start fx = map Start cs
             \<and> filter is_eprint fx = map (\<lambda>c. Eprint (ErrorStarting c)) (failed os k cs)
             \<and> procs app' = procs app @ map fresh_proc (launched os k cs)
             \<and> fst ` set (subprocesses app')
                 = fst ` set (subprocesses app) \<union> snd ` set (launched os k cs)"
    if nc: "\<forall>c\<in>set cs. \<not> isChained c"
  proof -
    obtain a1 f1 e1 where r: "startSubprocesses os k app cs = (a1, f1, e1)"
      by (metis prod_cases3)
    from start_ok [OF nc r] show ?thesis by (simp add: r)
  qed
  from 1 2 main_all_fail [of cs os v kill evs] show ?thesis by blast
qed

theorem start_failure_not_fatal_witness:
  "filter is_start (fst (snd (startSubprocesses second_only 0
       \<lparr>verbose = False, procs = [], subprocesses = []\<rparr> [runes ''a'', runes ''b''])))
     = [Start (runes ''a''), Start (runes ''b'')]
   \<and> procs (fst (startSubprocesses second_only 0
       \<lparr>verbose = False, procs = [], subprocesses = []\<rparr> [runes ''a'', runes ''b'']))
     = [\<lparr>command = runes ''b'', pid = 7, up = True, err = None\<rparr>]
   \<and> main False [runes ''a'', runes ''b''] (\<lambda>k. None) kill_ok []
     = ([Start (runes ''a''), Eprint (ErrorStarting (runes ''a'')),
         Start (runes ''b''), Eprint (ErrorStarting (runes ''b''))], Some 1)"
proof -
  let ?cs = "[runes ''a'', runes ''b'']"
  let ?app = "\<lparr>verbose = False, procs = [], subprocesses = []\<rparr>"
  have nc: "\<forall>c\<in>set ?cs. \<not> isChained c" using example_commands by simp
  have l: "launched second_only 0 ?cs = [(runes ''b'', 7)]"
    by (simp add: second_only_def)
  obtain a1 f1 e1 where r: "startSubprocesses second_only 0 ?app ?cs = (a1, f1, e1)"
    by (metis prod_cases3)
  from start_failure_not_fatal
    [where os = second_only and k = 0 and app = ?app and cs = ?cs,
      THEN conjunct2, THEN conjunct1, THEN mp, OF nc]
  have "case startSubprocesses second_only 0 ?app ?cs of
           (app', fx, e) \<Rightarrow>
             \<not> e \<and> filter is_start fx = map Start ?cs
             \<and> filter is_eprint fx
                 = map (\<lambda>c. Eprint (ErrorStarting c)) (failed second_only 0 ?cs)
             \<and> procs app' = procs ?app @ map fresh_proc (launched second_only 0 ?cs)
             \<and> fst ` set (subprocesses app')
                 = fst ` set (subprocesses ?app) \<union> snd ` set (launched second_only 0 ?cs)"
    .
  then have 1: "filter is_start f1 = map Start ?cs"
    and 2: "procs a1 = procs ?app @ map fresh_proc (launched second_only 0 ?cs)"
    unfolding r by simp_all
  have h: "?cs \<noteq> [] \<and> (\<forall>c\<in>set ?cs. \<not> isChained c)
      \<and> (\<forall>i<length ?cs. (\<lambda>k. None :: int option) i = None)"
    using nc by simp
  from start_failure_not_fatal
    [where os = "\<lambda>k. None" and cs = ?cs and v = False and kill = kill_ok and evs = "[]",
      THEN conjunct2, THEN conjunct2, THEN mp, OF h]
  have "main False ?cs (\<lambda>k. None) kill_ok []
          = (concat (map (\<lambda>c. [Start c, Eprint (ErrorStarting c)]) ?cs)
               @ logf False NoProcessesStarted,
             Some 1)"
    .
  then have 3: "main False ?cs (\<lambda>k. None) kill_ok []
     = ([Start (runes ''a''), Eprint (ErrorStarting (runes ''a'')),
         Start (runes ''b''), Eprint (ErrorStarting (runes ''b''))], Some 1)"
    by (simp add: logf_def)
  from 1 2 3 show ?thesis unfolding r l by (simp add: fresh_proc_def)
qed

end
